theory Spec2Isabelle
  imports Main "HOL-Library.Multiset"
begin

section \<open>URL routing of the polls application (polls/urls.py)\<close>

subsection \<open>Regular expressions as used by the URL patterns\<close>

text \<open>
  The four patterns of \<^verbatim>\<open>urlpatterns\<close> use five constructs of Python's \<^verbatim>\<open>re\<close>
  syntax: the anchors \<^verbatim>\<open>^\<close> and \<^verbatim>\<open>$\<close>, literal characters, a character class
  repeated with \<^verbatim>\<open>+\<close>, and a named group \<^verbatim>\<open>(?P<name>...)\<close>. A character class is
  a list of inclusive ranges; \<^verbatim>\<open>[0-9]\<close> is the single range from \<open>0\<close> to \<open>9\<close>.
  A path is a \<open>string\<close>, the bytes of its UTF-8 form: every character the patterns
  mention is ASCII, and no byte of a character outside ASCII is one of them. The path
  is what is left of the request's path once the project's URLconf has taken its own
  prefix.
\<close>

type_synonym char_class = "(char \<times> char) list"

datatype re_node =
    Caret
  | Dollar
  | Chr char
  | PlusClass char_class
  | Named string "re_node list"

definition in_class :: "char_class \<Rightarrow> char \<Rightarrow> bool" where
  "in_class cls c =
     list_ex (\<lambda>(lo, hi). (of_char lo :: nat) \<le> of_char c \<and> (of_char c :: nat) \<le> of_char hi) cls"

text \<open>
  A matcher state: how many characters of the subject lie before the current position,
  the characters from the current position on, and the named groups closed so far.
\<close>

type_synonym groups = "(string \<times> string) list"
type_synonym mstate = "nat \<times> string \<times> groups"

text \<open>
  \<^verbatim>\<open>cls+\<close> is greedy: it takes as many characters of the class as there are and gives
  them back one at a time when the rest of the pattern fails. \<open>plus_ends\<close> lists the
  positions after one or more characters of the class, the longest run first.
\<close>

fun plus_ends :: "char_class \<Rightarrow> nat \<Rightarrow> string \<Rightarrow> (nat \<times> string) list" where
  "plus_ends cls b [] = []"
| "plus_ends cls b (c # cs) =
     (if in_class cls c then plus_ends cls (Suc b) cs @ [(Suc b, cs)] else [])"

text \<open>
  \<open>rx_match\<close> gives every way one node can match at a state, in the order Python's
  backtracking matcher tries them; \<open>rx_seq\<close> does so for a sequence of nodes.
  Without the MULTILINE flag \<^verbatim>\<open>^\<close> matches only at the start of the subject, and
  \<^verbatim>\<open>$\<close> matches at its end and just before a newline that ends it.
\<close>

fun rx_match :: "re_node \<Rightarrow> mstate \<Rightarrow> mstate list"
  and rx_seq :: "re_node list \<Rightarrow> mstate \<Rightarrow> mstate list" where
  "rx_match Caret (b, rest, g) = (if b = 0 then [(b, rest, g)] else [])"
| "rx_match Dollar (b, rest, g) =
     (if rest = [] \<or> rest = [CHR 0x0A] then [(b, rest, g)] else [])"
| "rx_match (Chr c) (b, rest, g) =
     (case rest of
        [] \<Rightarrow> []
      | x # xs \<Rightarrow> if x = c then [(Suc b, xs, g)] else [])"
| "rx_match (PlusClass cls) (b, rest, g) =
     map (\<lambda>(b', rest'). (b', rest', g)) (plus_ends cls b rest)"
| "rx_match (Named n rs) (b, rest, g) =
     map (\<lambda>(b', rest', g'). (b', rest', g' @ [(n, take (b' - b) rest)]))
       (rx_seq rs (b, rest, g))"
| "rx_seq [] st = [st]"
| "rx_seq (r # rs) st = concat (map (rx_seq rs) (rx_match r st))"

text \<open>
  \<^verbatim>\<open>regex.search(path)\<close>: the first start position, from the left, at which the
  pattern matches, and there the first match the backtracking finds. The result is
  the match's \<^verbatim>\<open>groupdict()\<close>.
\<close>

fun search_from :: "re_node list \<Rightarrow> nat \<Rightarrow> string \<Rightarrow> groups option" where
  "search_from rs b rest =
     (case rx_seq rs (b, rest, []) of
        (_, _, g) # _ \<Rightarrow> Some g
      | [] \<Rightarrow> (case rest of [] \<Rightarrow> None | _ # rest' \<Rightarrow> search_from rs (Suc b) rest'))"

definition re_search :: "re_node list \<Rightarrow> string \<Rightarrow> groups option" where
  "re_search rs path = search_from rs 0 path"

subsection \<open>The routing table\<close>

text \<open>
  \<^verbatim>\<open>url(regex, view, name=...)\<close> builds one entry of the table. The four views are
  the functions of \<^verbatim>\<open>polls/views.py\<close>; the table refers to them only by name.
\<close>

datatype view = views_index | views_detail | views_results | views_vote

record url_pattern =
  regex :: "re_node list"
  callback :: view
  name :: string

definition url :: "re_node list \<Rightarrow> view \<Rightarrow> string \<Rightarrow> url_pattern" where
  "url r v n = \<lparr>regex = r, callback = v, name = n\<rparr>"

definition digit_class :: char_class where
  "digit_class = [(CHR ''0'', CHR ''9'')]"

text \<open>The group \<^verbatim>\<open>(?P<question_id>[0-9]+)\<close> that three of the patterns share.\<close>

definition question_id_group :: re_node where
  "question_id_group = Named ''question_id'' [PlusClass digit_class]"

definition urlpatterns :: "url_pattern list" where
  "urlpatterns =
     [ \<comment> \<open>\<^verbatim>\<open>^$\<close>\<close>
       url [Caret, Dollar] views_index ''index'',
       \<comment> \<open>\<^verbatim>\<open>^(?P<question_id>[0-9]+)/$\<close>\<close>
       url ([Caret, question_id_group] @ map Chr ''/'' @ [Dollar]) views_detail ''detail'',
       \<comment> \<open>\<^verbatim>\<open>^(?P<question_id>[0-9]+)/results/$\<close>\<close>
       url ([Caret, question_id_group] @ map Chr ''/results/'' @ [Dollar])
         views_results ''results'',
       \<comment> \<open>\<^verbatim>\<open>^(?P<question_id>[0-9]+)/vote/$\<close>\<close>
       url ([Caret, question_id_group] @ map Chr ''/vote/'' @ [Dollar]) views_vote ''vote'' ]"

text \<open>
  Resolution, as the resolver of the framework's releases that have \<^verbatim>\<open>url()\<close> does
  it: a pattern resolves a path when \<^verbatim>\<open>regex.search(path)\<close> finds a match, the
  patterns are tried in the order of the list, the first that resolves wins, and the
  match carries the view, the keyword arguments (the named groups) and the pattern's
  name. \<open>None\<close> is the resolver's \<^verbatim>\<open>Resolver404\<close>.
\<close>

record resolver_match =
  func :: view
  kwargs :: groups
  url_name :: string

definition pattern_resolve :: "url_pattern \<Rightarrow> string \<Rightarrow> resolver_match option" where
  "pattern_resolve p path =
     (case re_search (regex p) path of
        None \<Rightarrow> None
      | Some g \<Rightarrow> Some \<lparr>func = callback p, kwargs = g, url_name = name p\<rparr>)"

fun resolve_in :: "url_pattern list \<Rightarrow> string \<Rightarrow> resolver_match option" where
  "resolve_in [] path = None"
| "resolve_in (p # ps) path =
     (case pattern_resolve p path of
        Some m \<Rightarrow> Some m
      | None \<Rightarrow> resolve_in ps path)"

definition resolve :: "string \<Rightarrow> resolver_match option" where
  "resolve path = resolve_in urlpatterns path"

text \<open>
  The tests reverse the routes as \<^verbatim>\<open>polls:index\<close>, \<^verbatim>\<open>polls:detail\<close>: the
  names of the table under the namespace the project's URLconf includes it with.

  Modelled from the spec: the namespace \<^verbatim>\<open>polls\<close> is set where the project includes
  this table, which is not part of \<^verbatim>\<open>polls/urls.py\<close>; the spec and the tests use it.
\<close>

definition app_namespace :: string where
  "app_namespace = ''polls''"

definition qualified_name :: "url_pattern \<Rightarrow> string" where
  "qualified_name p = app_namespace @ '':'' @ name p"

subsection \<open>Vocabulary of the routing properties\<close>

text \<open>An ASCII decimal digit, and a non-empty string of them.\<close>

definition ascii_digit :: "char \<Rightarrow> bool" where
  "ascii_digit c = (c \<in> set ''0123456789'')"

definition digit_string :: "string \<Rightarrow> bool" where
  "digit_string ds = (ds \<noteq> [] \<and> list_all ascii_digit ds)"

text \<open>A pattern is anchored when it starts with \<^verbatim>\<open>^\<close> and ends with \<^verbatim>\<open>$\<close>.\<close>

definition anchored :: "re_node list \<Rightarrow> bool" where
  "anchored rs = (rs \<noteq> [] \<and> hd rs = Caret \<and> last rs = Dollar)"

text \<open>A pattern matches a path when its own resolution of the path succeeds.\<close>

definition route_matches :: "url_pattern \<Rightarrow> string \<Rightarrow> bool" where
  "route_matches p path = (pattern_resolve p path \<noteq> None)"

section \<open>Questions and the publish-date rule (polls/tests.py and the spec)\<close>

subsection \<open>Time and the Question entity\<close>

text \<open>
  A timestamp is a number of microseconds, the resolution of Python's \<^verbatim>\<open>datetime\<close>;
  \<^verbatim>\<open>datetime.timedelta(days=d)\<close> is \<open>d\<close> days of them.
\<close>

type_synonym datetime = int

definition timedelta_days :: "int \<Rightarrow> int" where
  "timedelta_days d = d * 86400000000"

text \<open>
  A Question as the tests build it: a text and a publish timestamp. The primary key is
  \<open>None\<close> until the row is saved (\<^verbatim>\<open>Question(pub_date=time)\<close> in the method tests
  is never saved).
\<close>

record question =
  pk :: "nat option"
  question_text :: string
  pub_date :: datetime

text \<open>
  The table of Questions: its rows in insertion order, and the last primary key the
  database has handed out. A key is handed out once: the next row gets the successor
  of the last key, whatever rows are still in the table. The test database starts
  empty.
\<close>

record question_table =
  table_rows :: "question list"
  last_pk :: nat

definition empty_table :: question_table where
  "empty_table = \<lparr>table_rows = [], last_pk = 0\<rparr>"

definition objects_create ::
  "question_table \<Rightarrow> string \<Rightarrow> datetime \<Rightarrow> question \<times> question_table" where
  "objects_create objects text time =
     (let k = Suc (last_pk objects);
          q = \<lparr>pk = Some k, question_text = text, pub_date = time\<rparr>
      in (q, \<lparr>table_rows = table_rows objects @ [q], last_pk = k\<rparr>))"

text \<open>
  Python's \<^verbatim>\<open>timedelta(days=d)\<close> raises \<^verbatim>\<open>OverflowError\<close> when \<open>d\<close> has a magnitude
  above 999999999, and adding a \<^verbatim>\<open>timedelta\<close> to a \<^verbatim>\<open>datetime\<close> raises it when the
  result leaves the years 1 to 9999. The bounds are \<^verbatim>\<open>datetime.min\<close> and
  \<^verbatim>\<open>datetime.max\<close> in microseconds since the epoch.
\<close>

datatype error = OverflowError

definition datetime_min :: datetime where
  "datetime_min = - 62135596800000000"

definition datetime_max :: datetime where
  "datetime_max = 253402300799999999"

text \<open>
  \<^verbatim>\<open>create_question(question_text, days)\<close> of \<^verbatim>\<open>polls/tests.py\<close>: the clock is read,
  the offset added, and \<^verbatim>\<open>Question.objects.create\<close> appends the row to the table. The
  function returns the saved question; the table is returned with it.
\<close>

definition create_question ::
  "datetime \<Rightarrow> question_table \<Rightarrow> string \<Rightarrow> int \<Rightarrow> error + question \<times> question_table" where
  "create_question now objects text days =
     (if days < - 999999999 \<or> 999999999 < days then Inl OverflowError
      else
        let time = now + timedelta_days days
        in if time < datetime_min \<or> datetime_max < time then Inl OverflowError
           else Inr (objects_create objects text time))"

subsection \<open>The parts of the application that the tests call\<close>

text \<open>
  Modelled from the spec: \<^verbatim>\<open>Question.was_published_recently\<close> of \<^verbatim>\<open>polls/models.py\<close>,
  which is not among the sources. The spec's contract (4.2): it returns false for any
  future \<^verbatim>\<open>pub_date\<close>, false for a \<^verbatim>\<open>pub_date\<close> older than a threshold, and true
  otherwise. The spec leaves the threshold open between one day and seven days, so it is
  a parameter here; \<open>now\<close> is the clock the method reads.
\<close>

definition was_published_recently :: "int \<Rightarrow> datetime \<Rightarrow> question \<Rightarrow> bool" where
  "was_published_recently threshold now q =
     (if now < pub_date q then False
      else if threshold < now - pub_date q then False
      else True)"

text \<open>
  Modelled from the spec: the visibility filter of \<^verbatim>\<open>polls/views.py\<close>, which is not
  among the sources. The spec's contract (4.1): given the current time \<open>T\<close>, select all
  Questions with \<^verbatim>\<open>pub_date <= T\<close>, ordered descending by \<^verbatim>\<open>pub_date\<close>, ties in a
  stable order (insertion order). \<open>sort_key\<close> is a stable sort.
\<close>

definition visibility_filter :: "datetime \<Rightarrow> question list \<Rightarrow> question list" where
  "visibility_filter T objects =
     sort_key (\<lambda>q. - pub_date q) (filter (\<lambda>q. pub_date q \<le> T) objects)"

text \<open>
  Modelled from the spec: the question list of the index view of \<^verbatim>\<open>polls/views.py\<close>,
  which is not among the sources. The spec's contract (4.3): the index view returns the
  \<open>N\<close> most recently published Questions, with \<open>N\<close> left unspecified; \<open>N\<close> is a
  parameter here.
\<close>

definition latest_question_list :: "nat \<Rightarrow> datetime \<Rightarrow> question list \<Rightarrow> question list" where
  "latest_question_list N now objects = take N (visibility_filter now objects)"

text \<open>The Questions of a table that are published at a time: \<^verbatim>\<open>pub_date <= now\<close>.\<close>

definition published :: "datetime \<Rightarrow> question list \<Rightarrow> question list" where
  "published now objects = filter (\<lambda>q. pub_date q \<le> now) objects"

subsection \<open>The tests, as functions of the clock\<close>

text \<open>
  \<^verbatim>\<open>test_was_published_recently_with_future_question\<close>: \<open>now\<close> is the clock when the
  test builds the question, \<open>now'\<close> the clock when the method runs. The test passes
  when the value is \<open>True\<close>.
\<close>

definition test_was_published_recently_with_future_question ::
  "int \<Rightarrow> datetime \<Rightarrow> datetime \<Rightarrow> bool" where
  "test_was_published_recently_with_future_question threshold now now' =
     (let time = now + timedelta_days 30;
          future_question = \<lparr>pk = None, question_text = [], pub_date = time\<rparr>
      in was_published_recently threshold now' future_question = False)"

text \<open>
  \<^verbatim>\<open>test_index_view_with_future_question_and_past_question\<close> and
  \<^verbatim>\<open>test_index_view_with_two_past_questions\<close>, on the empty table; the clock reads
  \<open>now\<close> throughout, the offsets of the tests being whole days. The expected lists
  are the tests' own, by question text. A test in which \<^verbatim>\<open>create_question\<close> raises
  does not pass.
\<close>

definition test_index_view_with_future_question_and_past_question :: "nat \<Rightarrow> datetime \<Rightarrow> bool" where
  "test_index_view_with_future_question_and_past_question N now =
     (case create_question now empty_table ''Future question.'' 30 of
        Inl e \<Rightarrow> False
      | Inr (_, objects1) \<Rightarrow>
          (case create_question now objects1 ''Past question.'' (- 30) of
             Inl e \<Rightarrow> False
           | Inr (_, objects2) \<Rightarrow>
               map question_text (latest_question_list N now (table_rows objects2)) =
                 [''Past question.'']))"

definition test_index_view_with_two_past_questions :: "nat \<Rightarrow> datetime \<Rightarrow> bool" where
  "test_index_view_with_two_past_questions N now =
     (case create_question now empty_table ''Past question.'' (- 30) of
        Inl e \<Rightarrow> False
      | Inr (_, objects1) \<Rightarrow>
          (case create_question now objects1 ''Latest question.'' (- 9) of
             Inl e \<Rightarrow> False
           | Inr (_, objects2) \<Rightarrow>
               map question_text (latest_question_list N now (table_rows objects2)) =
                 [''Latest question.'', ''Past question.'']))"

section \<open>Properties of the routing table\<close>

subsection \<open>The matcher on the shapes the patterns have\<close>

declare search_from.simps [simp del]

lemma in_digit_class: "in_class digit_class c = ascii_digit c"
  unfolding ascii_digit_def
proof
  assume "in_class digit_class c"
  then have "(48::nat) \<le> of_char c" and "(of_char c :: nat) \<le> 57"
    by (simp_all add: in_class_def digit_class_def)
  then have "(of_char c :: nat) \<in> of_char ` set ''0123456789''"
    by simp arith
  then obtain d where d: "d \<in> set ''0123456789''" and "(of_char c :: nat) = of_char d"
    by blast
  then have "c = d"
    by (simp only: of_char_eq_iff)
  with d show "c \<in> set ''0123456789''"
    by simp
next
  assume "c \<in> set ''0123456789''"
  then show "in_class digit_class c"
    by (auto simp add: in_class_def digit_class_def)
qed

lemma plus_ends_then_chr:
  assumes "\<not> in_class cls c"
  shows "concat (map (\<lambda>(b', rest'). case rest' of [] \<Rightarrow> [] | x # xs \<Rightarrow> if x = c then K b' xs else [])
            (plus_ends cls b rest)) =
     (case dropWhile (in_class cls) rest of
        [] \<Rightarrow> []
      | x # xs \<Rightarrow>
          if x = c \<and> takeWhile (in_class cls) rest \<noteq> []
          then K (b + length (takeWhile (in_class cls) rest)) xs else [])"
    (is "?L b rest = ?R b rest")
proof (induction rest arbitrary: b)
  case Nil
  show ?case by simp
next
  case (Cons y ys)
  show ?case
  proof (cases "in_class cls y")
    case False
    then show ?thesis by simp
  next
    case True
    let ?last = "case ys of [] \<Rightarrow> [] | x # xs \<Rightarrow> if x = c then K (Suc b) xs else []"
    from True have "?L b (y # ys) = ?L (Suc b) ys @ ?last"
      by simp
    also have "\<dots> = ?R (Suc b) ys @ ?last"
      by (simp only: Cons.IH)
    also have "\<dots> = ?R b (y # ys)"
    proof (cases ys)
      case Nil
      with True show ?thesis by simp
    next
      case (Cons z zs)
      show ?thesis
      proof (cases "in_class cls z")
        case z: True
        with assms have "z \<noteq> c" by auto
        with True z Cons show ?thesis by (simp cong: list.case_cong if_cong)
      next
        case False
        with True Cons assms show ?thesis by (auto cong: list.case_cong if_cong)
      qed
    qed
    finally show ?thesis .
  qed
qed

lemma lits_dollar:
  "rx_seq (map Chr lit @ [Dollar]) (b, rest, g) =
     (if rest = lit \<or> rest = lit @ [CHR 0x0A]
      then [(b + length lit, drop (length lit) rest, g)] else [])"
proof (induction lit arbitrary: b rest)
  case Nil
  show ?case by simp
next
  case (Cons c cs)
  show ?case
    by (cases rest) (simp_all add: Cons.IH)
qed

lemma named_plus:
  "rx_match (Named n [PlusClass cls]) (b, rest, g) =
     map (\<lambda>(b', rest'). (b', rest', g @ [(n, take (b' - b) rest)])) (plus_ends cls b rest)"
  by (simp add: comp_def case_prod_unfold)

lemma group_then_chr:
  assumes "\<not> ascii_digit c"
  shows "rx_seq (question_id_group # Chr c # rs) (0, rest, g) =
     (case dropWhile ascii_digit rest of
        [] \<Rightarrow> []
      | x # xs \<Rightarrow>
          if x = c \<and> takeWhile ascii_digit rest \<noteq> []
          then rx_seq rs (Suc (length (takeWhile ascii_digit rest)), xs,
                 g @ [(''question_id'', takeWhile ascii_digit rest)])
          else [])"
proof -
  let ?K = "\<lambda>b' xs. rx_seq rs (Suc b', xs, g @ [(''question_id'', take b' rest)])"
  have cls: "in_class digit_class = ascii_digit"
    by (rule ext) (rule in_digit_class)
  have pt: "concat (map (rx_seq rs) (rx_match (Chr c) (b', rest', g'))) =
      (case rest' of [] \<Rightarrow> [] | x # xs \<Rightarrow> if x = c then rx_seq rs (Suc b', xs, g') else [])"
    for b' rest' g'
    by (simp split: list.splits)
  have "rx_seq (question_id_group # Chr c # rs) (0, rest, g) =
      concat (map (\<lambda>(b', rest'). case rest' of [] \<Rightarrow> [] | x # xs \<Rightarrow> if x = c then ?K b' xs else [])
        (plus_ends digit_class 0 rest))"
    unfolding question_id_group_def rx_seq.simps named_plus map_map comp_def case_prod_unfold
    by (simp only: pt fst_conv snd_conv minus_nat.diff_0)
  also have "\<dots> =
     (case dropWhile ascii_digit rest of
        [] \<Rightarrow> []
      | x # xs \<Rightarrow>
          if x = c \<and> takeWhile ascii_digit rest \<noteq> []
          then ?K (0 + length (takeWhile ascii_digit rest)) xs else [])"
    using assms by (simp only: plus_ends_then_chr cls not_False_eq_True)
  also have "\<dots> =
     (case dropWhile ascii_digit rest of
        [] \<Rightarrow> []
      | x # xs \<Rightarrow>
          if x = c \<and> takeWhile ascii_digit rest \<noteq> []
          then rx_seq rs (Suc (length (takeWhile ascii_digit rest)), xs,
                 g @ [(''question_id'', takeWhile ascii_digit rest)])
          else [])"
    by (simp add: takeWhile_eq_take [symmetric] cong: list.case_cong if_cong)
  finally show ?thesis .
qed

lemma tail_after_group:
  "(case d of
      [] \<Rightarrow> []
    | x # xs \<Rightarrow>
        if x = c \<and> t \<noteq> []
        then rx_seq (map Chr lit @ [Dollar]) (Suc (length t), xs, g) else []) =
   (if t \<noteq> [] \<and> (d = c # lit \<or> d = c # lit @ [CHR 0x0A])
    then [(Suc (length t + length lit), drop (Suc (length lit)) d, g)] else [])"
  by (cases d) (auto simp add: lits_dollar)

lemma id_route_seq:
  assumes "\<not> ascii_digit c"
  shows "rx_seq ([Caret, question_id_group] @ map Chr (c # lit) @ [Dollar]) (b, rest, g) =
     (if b = 0 \<and> takeWhile ascii_digit rest \<noteq> [] \<and>
         (dropWhile ascii_digit rest = c # lit \<or> dropWhile ascii_digit rest = c # lit @ [CHR 0x0A])
      then [(Suc (length (takeWhile ascii_digit rest) + length lit),
             drop (Suc (length lit)) (dropWhile ascii_digit rest),
             g @ [(''question_id'', takeWhile ascii_digit rest)])]
      else [])"
proof (cases "b = 0")
  case False
  then show ?thesis by simp
next
  case True
  have "rx_seq ([Caret, question_id_group] @ map Chr (c # lit) @ [Dollar]) (0, rest, g) =
      rx_seq (question_id_group # Chr c # (map Chr lit @ [Dollar])) (0, rest, g)"
    by simp
  also have "\<dots> =
     (case dropWhile ascii_digit rest of
        [] \<Rightarrow> []
      | x # xs \<Rightarrow>
          if x = c \<and> takeWhile ascii_digit rest \<noteq> []
          then rx_seq (map Chr lit @ [Dollar]) (Suc (length (takeWhile ascii_digit rest)), xs,
                 g @ [(''question_id'', takeWhile ascii_digit rest)])
          else [])"
    using assms by (rule group_then_chr)
  also have "\<dots> =
     (if takeWhile ascii_digit rest \<noteq> [] \<and>
         (dropWhile ascii_digit rest = c # lit \<or> dropWhile ascii_digit rest = c # lit @ [CHR 0x0A])
      then [(Suc (length (takeWhile ascii_digit rest) + length lit),
             drop (Suc (length lit)) (dropWhile ascii_digit rest),
             g @ [(''question_id'', takeWhile ascii_digit rest)])]
      else [])"
    by (rule tail_after_group)
  finally show ?thesis using True by simp
qed

lemma search_from_caret: "0 < b \<Longrightarrow> search_from (Caret # rs) b rest = None"
proof (induction rest arbitrary: b)
  case Nil
  then show ?case by (simp add: search_from.simps)
next
  case (Cons x xs)
  from Cons.prems Cons.IH [of "Suc b"] show ?case
    by (simp add: search_from.simps [of _ _ "x # xs"])
qed

lemma re_search_caret:
  "re_search (Caret # rs) path =
     (case rx_seq (Caret # rs) (0, path, []) of [] \<Rightarrow> None | (_, _, g) # _ \<Rightarrow> Some g)"
  unfolding re_search_def
  by (subst search_from.simps) (simp add: search_from_caret split: list.splits)

lemma search_index_rx:
  "re_search [Caret, Dollar] path = (if path = [] \<or> path = [CHR 0x0A] then Some [] else None)"
  by (simp add: re_search_caret)

lemma search_id_route:
  assumes "\<not> ascii_digit c"
  shows "re_search ([Caret, question_id_group] @ map Chr (c # lit) @ [Dollar]) path =
     (if takeWhile ascii_digit path \<noteq> [] \<and>
         (dropWhile ascii_digit path = c # lit \<or> dropWhile ascii_digit path = c # lit @ [CHR 0x0A])
      then Some [(''question_id'', takeWhile ascii_digit path)] else None)"
proof -
  have "re_search ([Caret, question_id_group] @ map Chr (c # lit) @ [Dollar]) path =
     (case rx_seq ([Caret, question_id_group] @ map Chr (c # lit) @ [Dollar]) (0, path, []) of
        [] \<Rightarrow> None | (_, _, g) # _ \<Rightarrow> Some g)"
    using re_search_caret [of "question_id_group # map Chr (c # lit) @ [Dollar]" path] by simp
  also have "\<dots> =
     (if takeWhile ascii_digit path \<noteq> [] \<and>
         (dropWhile ascii_digit path = c # lit \<or> dropWhile ascii_digit path = c # lit @ [CHR 0x0A])
      then Some [(''question_id'', takeWhile ascii_digit path)] else None)"
    by (simp only: id_route_seq [OF assms]) simp
  finally show ?thesis .
qed

lemma digits_split_iff:
  assumes "\<not> ascii_digit c"
  shows "(takeWhile ascii_digit path \<noteq> [] \<and> dropWhile ascii_digit path = c # t) \<longleftrightarrow>
         (\<exists>ds. digit_string ds \<and> path = ds @ c # t)"
proof
  assume h: "takeWhile ascii_digit path \<noteq> [] \<and> dropWhile ascii_digit path = c # t"
  have "path = takeWhile ascii_digit path @ dropWhile ascii_digit path"
    by simp
  with h have "path = takeWhile ascii_digit path @ c # t"
    by simp
  moreover from h have "digit_string (takeWhile ascii_digit path)"
    by (simp add: digit_string_def list_all_iff) (meson set_takeWhileD)
  ultimately show "\<exists>ds. digit_string ds \<and> path = ds @ c # t"
    by blast
next
  assume "\<exists>ds. digit_string ds \<and> path = ds @ c # t"
  then obtain ds where ds: "digit_string ds" and path: "path = ds @ c # t"
    by blast
  from ds have all: "\<forall>x \<in> set ds. ascii_digit x"
    by (simp add: digit_string_def list_all_iff)
  from all assms have "takeWhile ascii_digit path = ds"
    unfolding path by simp
  moreover from all assms have "dropWhile ascii_digit path = c # t"
    unfolding path by simp
  ultimately show "takeWhile ascii_digit path \<noteq> [] \<and> dropWhile ascii_digit path = c # t"
    using ds by (simp add: digit_string_def)
qed

lemma digits_take:
  assumes "\<not> ascii_digit c" and "digit_string ds"
  shows "takeWhile ascii_digit (ds @ c # t) = ds" and "dropWhile ascii_digit (ds @ c # t) = c # t"
  using assms by (simp_all add: digit_string_def list_all_iff)

subsection \<open>Resolution of each entry\<close>

lemma newline_not_digit: "\<not> ascii_digit (CHR 0x0A)"
  by (simp add: ascii_digit_def)

lemma slash_not_digit: "\<not> ascii_digit CHR ''/''"
  by (simp add: ascii_digit_def)

lemma index_resolve:
  "pattern_resolve (urlpatterns ! 0) path =
     (if path = [] \<or> path = [CHR 0x0A]
      then Some \<lparr>func = views_index, kwargs = [], url_name = ''index''\<rparr> else None)"
  using search_index_rx [of path]
  by (simp add: pattern_resolve_def urlpatterns_def url_def)

lemma detail_resolve:
  "pattern_resolve (urlpatterns ! 1) path =
     (if takeWhile ascii_digit path \<noteq> [] \<and>
         (dropWhile ascii_digit path = ''/'' \<or> dropWhile ascii_digit path = ''/'' @ [CHR 0x0A])
      then Some \<lparr>func = views_detail, kwargs = [(''question_id'', takeWhile ascii_digit path)],
                  url_name = ''detail''\<rparr>
      else None)"
  using search_id_route [OF slash_not_digit, of "[]" path]
  by (simp add: pattern_resolve_def urlpatterns_def url_def)

lemma results_resolve:
  "pattern_resolve (urlpatterns ! 2) path =
     (if takeWhile ascii_digit path \<noteq> [] \<and>
         (dropWhile ascii_digit path = ''/results/'' \<or>
          dropWhile ascii_digit path = ''/results/'' @ [CHR 0x0A])
      then Some \<lparr>func = views_results, kwargs = [(''question_id'', takeWhile ascii_digit path)],
                  url_name = ''results''\<rparr>
      else None)"
  using search_id_route [OF slash_not_digit, of "''results/''" path]
  by (simp add: pattern_resolve_def urlpatterns_def url_def)

lemma vote_resolve:
  "pattern_resolve (urlpatterns ! 3) path =
     (if takeWhile ascii_digit path \<noteq> [] \<and>
         (dropWhile ascii_digit path = ''/vote/'' \<or>
          dropWhile ascii_digit path = ''/vote/'' @ [CHR 0x0A])
      then Some \<lparr>func = views_vote, kwargs = [(''question_id'', takeWhile ascii_digit path)],
                  url_name = ''vote''\<rparr>
      else None)"
  using search_id_route [OF slash_not_digit, of "''vote/''" path]
  by (simp add: pattern_resolve_def urlpatterns_def url_def)

lemma urlpatterns_nths:
  "urlpatterns = [urlpatterns ! 0, urlpatterns ! 1, urlpatterns ! 2, urlpatterns ! 3]"
  by (simp add: urlpatterns_def)

lemma resolve_unfold:
  "resolve path =
     (case pattern_resolve (urlpatterns ! 0) path of
        Some m \<Rightarrow> Some m
      | None \<Rightarrow>
          (case pattern_resolve (urlpatterns ! 1) path of
             Some m \<Rightarrow> Some m
           | None \<Rightarrow>
               (case pattern_resolve (urlpatterns ! 2) path of
                  Some m \<Rightarrow> Some m
                | None \<Rightarrow> pattern_resolve (urlpatterns ! 3) path)))"
  unfolding resolve_def
  by (subst urlpatterns_nths) (simp split: option.splits)

lemma ex_digits:
  assumes "\<not> ascii_digit c"
  shows "(\<exists>ds. digit_string ds \<and> (path = ds @ c # t \<or> path = ds @ c # t @ [CHR 0x0A]) \<and> m = F ds) \<longleftrightarrow>
         (takeWhile ascii_digit path \<noteq> [] \<and>
          (dropWhile ascii_digit path = c # t \<or> dropWhile ascii_digit path = c # t @ [CHR 0x0A]) \<and>
          m = F (takeWhile ascii_digit path))"
    (is "?L \<longleftrightarrow> ?R")
proof
  assume ?L
  then obtain ds where ds: "digit_string ds"
    and path: "path = ds @ c # t \<or> path = ds @ c # t @ [CHR 0x0A]" and m: "m = F ds"
    by blast
  from path show ?R
  proof
    assume "path = ds @ c # t"
    with digits_take [OF assms ds, of t] ds m show ?R
      by (simp add: digit_string_def)
  next
    assume "path = ds @ c # t @ [CHR 0x0A]"
    with digits_take [OF assms ds, of "t @ [CHR 0x0A]"] ds m show ?R
      by (simp add: digit_string_def)
  qed
next
  assume r: ?R
  then have "dropWhile ascii_digit path = c # t \<or> dropWhile ascii_digit path = c # t @ [CHR 0x0A]"
    by simp
  then show ?L
  proof
    assume "dropWhile ascii_digit path = c # t"
    with r have "\<exists>ds. digit_string ds \<and> path = ds @ c # t"
      using digits_split_iff [OF assms, of path t] by simp
    then obtain ds where ds: "digit_string ds" "path = ds @ c # t" by blast
    with digits_take [OF assms ds(1), of t] r show ?L by auto
  next
    assume "dropWhile ascii_digit path = c # t @ [CHR 0x0A]"
    with r have "\<exists>ds. digit_string ds \<and> path = ds @ c # (t @ [CHR 0x0A])"
      using digits_split_iff [OF assms, of path "t @ [CHR 0x0A]"] by simp
    then obtain ds where ds: "digit_string ds" "path = ds @ c # t @ [CHR 0x0A]" by auto
    with digits_take [OF assms ds(1), of "t @ [CHR 0x0A]"] r show ?L by auto
  qed
qed

lemma resolve_cases:
  "resolve path =
     (if path = [] \<or> path = [CHR 0x0A]
      then Some \<lparr>func = views_index, kwargs = [], url_name = ''index''\<rparr>
      else if takeWhile ascii_digit path = [] then None
      else if dropWhile ascii_digit path = ''/'' \<or> dropWhile ascii_digit path = ''/'' @ [CHR 0x0A]
      then Some \<lparr>func = views_detail, kwargs = [(''question_id'', takeWhile ascii_digit path)],
                  url_name = ''detail''\<rparr>
      else if dropWhile ascii_digit path = ''/results/'' \<or>
              dropWhile ascii_digit path = ''/results/'' @ [CHR 0x0A]
      then Some \<lparr>func = views_results, kwargs = [(''question_id'', takeWhile ascii_digit path)],
                  url_name = ''results''\<rparr>
      else if dropWhile ascii_digit path = ''/vote/'' \<or>
              dropWhile ascii_digit path = ''/vote/'' @ [CHR 0x0A]
      then Some \<lparr>func = views_vote, kwargs = [(''question_id'', takeWhile ascii_digit path)],
                  url_name = ''vote''\<rparr>
      else None)"
  unfolding resolve_unfold index_resolve detail_resolve results_resolve vote_resolve
  by simp

text \<open>
  Claim C7. The routing table has exactly four entries, for the views index, detail,
  results and vote, named \<^verbatim>\<open>polls:index\<close>, \<^verbatim>\<open>polls:detail\<close>, \<^verbatim>\<open>polls:results\<close>
  and \<^verbatim>\<open>polls:vote\<close>. Resolution sends the empty path to index, a non-empty digit
  string followed by \<^verbatim>\<open>/\<close> to detail, by \<^verbatim>\<open>/results/\<close> to results and by
  \<^verbatim>\<open>/vote/\<close> to vote, each with the digit string as the keyword argument
  \<^verbatim>\<open>question_id\<close>, and it sends nothing else anywhere, up to the one newline that
  Python's \<^verbatim>\<open>$\<close> lets follow the path.
\<close>

theorem urlpatterns_routing_table:
  "length urlpatterns = 4 \<and>
   map callback urlpatterns = [views_index, views_detail, views_results, views_vote] \<and>
   map qualified_name urlpatterns =
     [''polls:index'', ''polls:detail'', ''polls:results'', ''polls:vote''] \<and>
   (resolve path = Some m \<longleftrightarrow>
      ((path = [] \<or> path = [CHR 0x0A]) \<and>
        m = \<lparr>func = views_index, kwargs = [], url_name = ''index''\<rparr>) \<or>
      (\<exists>ds. digit_string ds \<and> (path = ds @ ''/'' \<or> path = ds @ ''/'' @ [CHR 0x0A]) \<and>
        m = \<lparr>func = views_detail, kwargs = [(''question_id'', ds)], url_name = ''detail''\<rparr>) \<or>
      (\<exists>ds. digit_string ds \<and>
        (path = ds @ ''/results/'' \<or> path = ds @ ''/results/'' @ [CHR 0x0A]) \<and>
        m = \<lparr>func = views_results, kwargs = [(''question_id'', ds)], url_name = ''results''\<rparr>) \<or>
      (\<exists>ds. digit_string ds \<and> (path = ds @ ''/vote/'' \<or> path = ds @ ''/vote/'' @ [CHR 0x0A]) \<and>
        m = \<lparr>func = views_vote, kwargs = [(''question_id'', ds)], url_name = ''vote''\<rparr>))"
proof -
  have shape: "length urlpatterns = 4"
    "map callback urlpatterns = [views_index, views_detail, views_results, views_vote]"
    "map qualified_name urlpatterns =
       [''polls:index'', ''polls:detail'', ''polls:results'', ''polls:vote'']"
    by (simp_all add: urlpatterns_def url_def qualified_name_def app_namespace_def)
  let ?D = "takeWhile ascii_digit path" and ?T = "dropWhile ascii_digit path"
  have d: "(\<exists>ds. digit_string ds \<and> (path = ds @ ''/'' \<or> path = ds @ ''/'' @ [CHR 0x0A]) \<and>
        m = \<lparr>func = views_detail, kwargs = [(''question_id'', ds)], url_name = ''detail''\<rparr>) \<longleftrightarrow>
      (?D \<noteq> [] \<and> (?T = ''/'' \<or> ?T = ''/'' @ [CHR 0x0A]) \<and>
        m = \<lparr>func = views_detail, kwargs = [(''question_id'', ?D)], url_name = ''detail''\<rparr>)"
    using ex_digits [OF slash_not_digit, of path "[]" m
      "\<lambda>ds. \<lparr>func = views_detail, kwargs = [(''question_id'', ds)], url_name = ''detail''\<rparr>"]
    by simp
  have r: "(\<exists>ds. digit_string ds \<and>
        (path = ds @ ''/results/'' \<or> path = ds @ ''/results/'' @ [CHR 0x0A]) \<and>
        m = \<lparr>func = views_results, kwargs = [(''question_id'', ds)], url_name = ''results''\<rparr>) \<longleftrightarrow>
      (?D \<noteq> [] \<and> (?T = ''/results/'' \<or> ?T = ''/results/'' @ [CHR 0x0A]) \<and>
        m = \<lparr>func = views_results, kwargs = [(''question_id'', ?D)], url_name = ''results''\<rparr>)"
    using ex_digits [OF slash_not_digit, of path "''results/''" m
      "\<lambda>ds. \<lparr>func = views_results, kwargs = [(''question_id'', ds)], url_name = ''results''\<rparr>"]
    by simp
  have v: "(\<exists>ds. digit_string ds \<and> (path = ds @ ''/vote/'' \<or> path = ds @ ''/vote/'' @ [CHR 0x0A]) \<and>
        m = \<lparr>func = views_vote, kwargs = [(''question_id'', ds)], url_name = ''vote''\<rparr>) \<longleftrightarrow>
      (?D \<noteq> [] \<and> (?T = ''/vote/'' \<or> ?T = ''/vote/'' @ [CHR 0x0A]) \<and>
        m = \<lparr>func = views_vote, kwargs = [(''question_id'', ?D)], url_name = ''vote''\<rparr>)"
    using ex_digits [OF slash_not_digit, of path "''vote/''" m
      "\<lambda>ds. \<lparr>func = views_vote, kwargs = [(''question_id'', ds)], url_name = ''vote''\<rparr>"]
    by simp
  have i: "path = [] \<or> path = [CHR 0x0A] \<Longrightarrow> ?D = []"
    using newline_not_digit by auto
  have "resolve path = Some m \<longleftrightarrow>
      ((path = [] \<or> path = [CHR 0x0A]) \<and>
        m = \<lparr>func = views_index, kwargs = [], url_name = ''index''\<rparr>) \<or>
      (?D \<noteq> [] \<and> (?T = ''/'' \<or> ?T = ''/'' @ [CHR 0x0A]) \<and>
        m = \<lparr>func = views_detail, kwargs = [(''question_id'', ?D)], url_name = ''detail''\<rparr>) \<or>
      (?D \<noteq> [] \<and> (?T = ''/results/'' \<or> ?T = ''/results/'' @ [CHR 0x0A]) \<and>
        m = \<lparr>func = views_results, kwargs = [(''question_id'', ?D)], url_name = ''results''\<rparr>) \<or>
      (?D \<noteq> [] \<and> (?T = ''/vote/'' \<or> ?T = ''/vote/'' @ [CHR 0x0A]) \<and>
        m = \<lparr>func = views_vote, kwargs = [(''question_id'', ?D)], url_name = ''vote''\<rparr>)"
    unfolding resolve_cases using i by auto
  then show ?thesis
    unfolding d r v using shape by simp
qed

lemma plus_ends_all:
  assumes "ds \<noteq> []" and "\<forall>c \<in> set ds. in_class cls c"
  shows "\<exists>alts. plus_ends cls b ds = (b + length ds, []) # alts"
  using assms
proof (induction ds arbitrary: b)
  case Nil
  then show ?case by simp
next
  case (Cons c cs)
  show ?case
  proof (cases cs)
    case Nil
    with Cons.prems show ?thesis by simp
  next
    case (Cons d ds')
    with Cons.prems Cons.IH [of "Suc b"] obtain alts
      where "plus_ends cls (Suc b) cs = (Suc b + length cs, []) # alts"
      by auto
    with Cons.prems show ?thesis by simp
  qed
qed

lemma group_takes_all:
  assumes "digit_string ds"
  shows "\<exists>alts. rx_match question_id_group (b, ds, g) =
           (b + length ds, [], g @ [(''question_id'', ds)]) # alts"
proof -
  from assms have "ds \<noteq> []" and "\<forall>c \<in> set ds. in_class digit_class c"
    by (simp_all add: digit_string_def list_all_iff in_digit_class)
  then obtain alts where "plus_ends digit_class b ds = (b + length ds, []) # alts"
    using plus_ends_all by blast
  then show ?thesis
    by (simp add: question_id_group_def named_plus del: rx_match.simps)
qed

lemma resolve_digits:
  assumes "digit_string ds"
  shows "resolve (ds @ ''/'') =
           Some \<lparr>func = views_detail, kwargs = [(''question_id'', ds)], url_name = ''detail''\<rparr>"
    and "resolve (ds @ ''/results/'') =
           Some \<lparr>func = views_results, kwargs = [(''question_id'', ds)], url_name = ''results''\<rparr>"
    and "resolve (ds @ ''/vote/'') =
           Some \<lparr>func = views_vote, kwargs = [(''question_id'', ds)], url_name = ''vote''\<rparr>"
proof -
  from assms have ne: "ds \<noteq> []" by (simp add: digit_string_def)
  from digits_take [OF slash_not_digit assms, of "[]"] ne
  show "resolve (ds @ ''/'') =
           Some \<lparr>func = views_detail, kwargs = [(''question_id'', ds)], url_name = ''detail''\<rparr>"
    unfolding resolve_cases by simp
  from digits_take [OF slash_not_digit assms, of "''results/''"] ne
  show "resolve (ds @ ''/results/'') =
           Some \<lparr>func = views_results, kwargs = [(''question_id'', ds)], url_name = ''results''\<rparr>"
    unfolding resolve_cases by simp
  from digits_take [OF slash_not_digit assms, of "''vote/''"] ne
  show "resolve (ds @ ''/vote/'') =
           Some \<lparr>func = views_vote, kwargs = [(''question_id'', ds)], url_name = ''vote''\<rparr>"
    unfolding resolve_cases by simp
qed

text \<open>
  Claim C10. The group \<^verbatim>\<open>(?P<question_id>[0-9]+)\<close> matches every non-empty digit
  string, and its preferred match is the whole string: the detail, results and vote
  routes resolve with that string, unchanged, as \<^verbatim>\<open>question_id\<close>. In particular
  \<^verbatim>\<open>0\<close>, which is not a positive integer, and \<^verbatim>\<open>007\<close>, a spelling with leading
  zeros, reach the detail view instead of being refused by the routing layer.
\<close>

theorem question_id_group_accepts_digit_strings:
  "(digit_string ds \<longrightarrow>
      (\<exists>alts. rx_match question_id_group (b, ds, g) =
         (b + length ds, [], g @ [(''question_id'', ds)]) # alts) \<and>
      resolve (ds @ ''/'') =
        Some \<lparr>func = views_detail, kwargs = [(''question_id'', ds)], url_name = ''detail''\<rparr> \<and>
      resolve (ds @ ''/results/'') =
        Some \<lparr>func = views_results, kwargs = [(''question_id'', ds)], url_name = ''results''\<rparr> \<and>
      resolve (ds @ ''/vote/'') =
        Some \<lparr>func = views_vote, kwargs = [(''question_id'', ds)], url_name = ''vote''\<rparr>) \<and>
   digit_string ''0'' \<and> digit_string ''007'' \<and>
   resolve ''0/'' =
     Some \<lparr>func = views_detail, kwargs = [(''question_id'', ''0'')], url_name = ''detail''\<rparr> \<and>
   resolve ''007/'' =
     Some \<lparr>func = views_detail, kwargs = [(''question_id'', ''007'')], url_name = ''detail''\<rparr>"
proof -
  have z: "digit_string ''0''" and s: "digit_string ''007''"
    by (simp_all add: digit_string_def ascii_digit_def)
  from resolve_digits(1) [OF z] resolve_digits(1) [OF s] z s
  show ?thesis
    using group_takes_all resolve_digits by simp
qed

text \<open>The theorem at the digit string \<^verbatim>\<open>42\<close>.\<close>

theorem question_id_group_accepts_digit_strings_witness:
  "digit_string ''42'' \<and>
   resolve ''42/results/'' =
     Some \<lparr>func = views_results, kwargs = [(''question_id'', ''42'')], url_name = ''results''\<rparr> \<and>
   resolve ''42/vote/'' =
     Some \<lparr>func = views_vote, kwargs = [(''question_id'', ''42'')], url_name = ''vote''\<rparr>"
proof -
  have d: "digit_string ''42''"
    by (simp add: digit_string_def ascii_digit_def)
  with question_id_group_accepts_digit_strings [of "''42''" 0 "[]"] show ?thesis
    by simp
qed


subsection \<open>Disjointness\<close>

lemma route_matches_nth:
  "route_matches (urlpatterns ! 0) path \<longleftrightarrow> path = [] \<or> path = [CHR 0x0A]"
  "route_matches (urlpatterns ! 1) path \<longleftrightarrow>
     takeWhile ascii_digit path \<noteq> [] \<and>
     (dropWhile ascii_digit path = ''/'' \<or> dropWhile ascii_digit path = ''/'' @ [CHR 0x0A])"
  "route_matches (urlpatterns ! 2) path \<longleftrightarrow>
     takeWhile ascii_digit path \<noteq> [] \<and>
     (dropWhile ascii_digit path = ''/results/'' \<or>
      dropWhile ascii_digit path = ''/results/'' @ [CHR 0x0A])"
  "route_matches (urlpatterns ! 3) path \<longleftrightarrow>
     takeWhile ascii_digit path \<noteq> [] \<and>
     (dropWhile ascii_digit path = ''/vote/'' \<or>
      dropWhile ascii_digit path = ''/vote/'' @ [CHR 0x0A])"
  unfolding route_matches_def index_resolve detail_resolve results_resolve vote_resolve
  by simp_all

lemma index_excludes_digits:
  "path = [] \<or> path = [CHR 0x0A] \<Longrightarrow> takeWhile ascii_digit path = []"
  using newline_not_digit by auto

lemma routes_conflict:
  "\<not> (route_matches (urlpatterns ! 0) path \<and> route_matches (urlpatterns ! 1) path)"
  "\<not> (route_matches (urlpatterns ! 0) path \<and> route_matches (urlpatterns ! 2) path)"
  "\<not> (route_matches (urlpatterns ! 0) path \<and> route_matches (urlpatterns ! 3) path)"
  "\<not> (route_matches (urlpatterns ! 1) path \<and> route_matches (urlpatterns ! 2) path)"
  "\<not> (route_matches (urlpatterns ! 1) path \<and> route_matches (urlpatterns ! 3) path)"
  "\<not> (route_matches (urlpatterns ! 2) path \<and> route_matches (urlpatterns ! 3) path)"
  unfolding route_matches_nth using index_excludes_digits [of path] by auto

lemma routes_pairwise:
  assumes "i < 4" and "j < 4"
    and "route_matches (urlpatterns ! i) path" and "route_matches (urlpatterns ! j) path"
  shows "i = j"
proof -
  from assms(1) have i: "i = 0 \<or> i = 1 \<or> i = 2 \<or> i = 3" by arith
  from assms(2) have j: "j = 0 \<or> j = 1 \<or> j = 2 \<or> j = 3" by arith
  from i j assms(3,4) routes_conflict [of path] show ?thesis
    by (elim disjE) simp_all
qed

lemma resolve_in_None: "resolve_in ps path = None \<longleftrightarrow> (\<forall>p \<in> set ps. \<not> route_matches p path)"
  by (induction ps) (auto simp add: route_matches_def split: option.splits)

lemma resolve_in_Some:
  "resolve_in ps path = Some m \<Longrightarrow> \<exists>p \<in> set ps. pattern_resolve p path = Some m"
  by (induction ps) (auto split: option.splits)

lemma in_urlpatterns:
  assumes "p \<in> set urlpatterns"
  shows "\<exists>i < 4. p = urlpatterns ! i"
proof -
  from assms have "p \<in> set [urlpatterns ! 0, urlpatterns ! 1, urlpatterns ! 2, urlpatterns ! 3]"
    by (subst (asm) urlpatterns_nths)
  then consider "p = urlpatterns ! 0" | "p = urlpatterns ! 1" | "p = urlpatterns ! 2"
    | "p = urlpatterns ! 3"
    by auto
  then show ?thesis
  proof cases
    case 1
    then show ?thesis by (intro exI [of _ 0]) simp
  next
    case 2
    then show ?thesis by (intro exI [of _ 1]) simp
  next
    case 3
    then show ?thesis by (intro exI [of _ 2]) simp
  next
    case 4
    then show ?thesis by (intro exI [of _ 3]) simp
  qed
qed

lemma resolve_in_any_order:
  assumes "set ps = set urlpatterns"
  shows "resolve_in ps path = resolve path"
proof (cases "resolve path")
  case None
  then have "\<forall>p \<in> set urlpatterns. \<not> route_matches p path"
    by (simp add: resolve_def resolve_in_None)
  with assms have "resolve_in ps path = None"
    by (simp add: resolve_in_None)
  with None show ?thesis by simp
next
  case (Some m)
  then obtain p where p: "p \<in> set urlpatterns" "pattern_resolve p path = Some m"
    unfolding resolve_def by (blast dest: resolve_in_Some)
  with assms have "resolve_in ps path \<noteq> None"
    by (auto simp add: resolve_in_None route_matches_def)
  then obtain m' where m': "resolve_in ps path = Some m'"
    by blast
  then obtain q where q: "q \<in> set ps" "pattern_resolve q path = Some m'"
    by (blast dest: resolve_in_Some)
  from p(1) obtain i where i: "i < 4" "p = urlpatterns ! i"
    by (blast dest: in_urlpatterns)
  from q(1) assms obtain j where j: "j < 4" "q = urlpatterns ! j"
    by (blast dest: in_urlpatterns)
  from i j p(2) q(2) have "i = j"
    by (intro routes_pairwise [of i j path]) (simp_all add: route_matches_def)
  with i j p(2) q(2) have "m' = m" by simp
  with m' Some show ?thesis by simp
qed

lemma all_anchored: "list_all (\<lambda>p. anchored (regex p)) urlpatterns"
  by (simp add: urlpatterns_def url_def anchored_def)

lemma at_most_one_route: "length (filter (\<lambda>p. route_matches p path) urlpatterns) \<le> 1"
proof -
  have "\<not> (route_matches (urlpatterns ! i) path \<and> route_matches (urlpatterns ! j) path)"
    if "i < 4" "j < 4" "i \<noteq> j" for i j
    using that routes_pairwise [of i j path] by blast
  from this [of 0 1] this [of 0 2] this [of 0 3] this [of 1 2] this [of 1 3] this [of 2 3]
  show ?thesis
    by (subst urlpatterns_nths) (simp del: nth_Cons_numeral nth_Cons_0 nth_Cons_Suc)
qed

text \<open>
  Claim C9. Each of the four patterns starts with \<^verbatim>\<open>^\<close> and ends with \<^verbatim>\<open>$\<close>, and
  the patterns are pairwise disjoint: a path is matched by at most one entry of the
  table. Dispatch is therefore a partial function of the path alone: any table with the
  same entries, in whatever order, resolves every path as \<open>urlpatterns\<close> does.
\<close>

theorem routes_anchored_and_disjoint:
  "list_all (\<lambda>p. anchored (regex p)) urlpatterns \<and>
   length (filter (\<lambda>p. route_matches p path) urlpatterns) \<le> 1 \<and>
   (i < length urlpatterns \<and> j < length urlpatterns \<and>
    route_matches (urlpatterns ! i) path \<and> route_matches (urlpatterns ! j) path \<longrightarrow> i = j) \<and>
   (set ps = set urlpatterns \<longrightarrow> resolve_in ps path = resolve path)"
proof -
  have "length urlpatterns = 4"
    by (simp add: urlpatterns_def)
  with all_anchored at_most_one_route routes_pairwise resolve_in_any_order show ?thesis
    by auto
qed

text \<open>
  The theorem at the path \<^verbatim>\<open>5/vote/\<close>, the entries 1 (detail) and 3 (vote), and the
  table in reverse order.
\<close>

theorem routes_anchored_and_disjoint_witness:
  "route_matches (urlpatterns ! 3) ''5/vote/'' \<and>
   \<not> route_matches (urlpatterns ! 1) ''5/vote/'' \<and>
   set (rev urlpatterns) = set urlpatterns \<and>
   resolve_in (rev urlpatterns) ''5/vote/'' = resolve ''5/vote/'' \<and>
   resolve ''5/vote/'' =
     Some \<lparr>func = views_vote, kwargs = [(''question_id'', ''5'')], url_name = ''vote''\<rparr>"
proof -
  have m: "route_matches (urlpatterns ! 3) ''5/vote/''"
    by (simp add: route_matches_def urlpatterns_def url_def pattern_resolve_def re_search_def
        search_from.simps question_id_group_def digit_class_def in_class_def)
  have r: "resolve ''5/vote/'' =
     Some \<lparr>func = views_vote, kwargs = [(''question_id'', ''5'')], url_name = ''vote''\<rparr>"
    by (simp add: resolve_def urlpatterns_def url_def pattern_resolve_def re_search_def
        search_from.simps question_id_group_def digit_class_def in_class_def)
  have l: "(1::nat) < length urlpatterns" "(3::nat) < length urlpatterns"
    by (simp_all add: urlpatterns_def)
  from routes_anchored_and_disjoint
    [where i = 1 and j = 3 and path = "''5/vote/''" and ps = "rev urlpatterns"] m r l
  show ?thesis
    by auto
qed

section \<open>Properties of the publish-date rule\<close>

lemmas test_defs =
  create_question_def objects_create_def empty_table_def latest_question_list_def
  visibility_filter_def timedelta_days_def datetime_min_def datetime_max_def Let_def

text \<open>
  The index tests pass on the model at every clock reading that leaves thirty days to
  either end of the calendar, when the limit of the index view is at least the length
  of the expected list.
\<close>

lemma two_past_passes:
  assumes "2 \<le> N" and "datetime_min + timedelta_days 30 \<le> now" and "now \<le> datetime_max"
  shows "test_index_view_with_two_past_questions N now"
  using assms by (simp add: test_index_view_with_two_past_questions_def test_defs)

lemma future_and_past_passes:
  assumes "1 \<le> N" and "datetime_min + timedelta_days 30 \<le> now"
    and "now + timedelta_days 30 \<le> datetime_max"
  shows "test_index_view_with_future_question_and_past_question N now"
  using assms by (simp add: test_index_view_with_future_question_and_past_question_def test_defs)

text \<open>\<^verbatim>\<open>create_question\<close> raises where Python does: at an offset or a date out of range.\<close>

lemma create_question_overflow:
  "create_question now objects text 1000000000 = Inl OverflowError"
  "create_question datetime_max objects text 1 = Inl OverflowError"
  by (simp_all add: create_question_def timedelta_days_def datetime_min_def datetime_max_def)

text \<open>A primary key is not handed out again after its row has left the table.\<close>

lemma objects_create_fresh_pk:
  "pk (fst (objects_create (objects\<lparr>table_rows := butlast (table_rows objects)\<rparr>) text time)) =
     Some (Suc (last_pk objects))"
  by (simp add: objects_create_def Let_def)

lemma future_test_passes:
  "now' < now + timedelta_days 30 \<Longrightarrow>
     test_was_published_recently_with_future_question threshold now now'"
  by (simp add: test_was_published_recently_with_future_question_def was_published_recently_def Let_def)

text \<open>
  Claim C2. For every Question whose \<^verbatim>\<open>pub_date\<close> is strictly after the current time,
  however far in the future, \<^verbatim>\<open>was_published_recently()\<close> returns false, whatever
  the threshold of the rule is.
\<close>

theorem future_question_not_recent:
  "now < pub_date q \<Longrightarrow> was_published_recently threshold now q = False"
  by (simp add: was_published_recently_def)

text \<open>
  The theorem at the question of \<^verbatim>\<open>test_was_published_recently_with_future_question\<close>,
  thirty days ahead of the clock; the test passes.
\<close>

theorem future_question_not_recent_witness:
  "(0::int) < pub_date \<lparr>pk = None, question_text = [], pub_date = 0 + timedelta_days 30\<rparr> \<and>
   was_published_recently (timedelta_days 1) 0
     \<lparr>pk = None, question_text = [], pub_date = 0 + timedelta_days 30\<rparr> = False \<and>
   test_was_published_recently_with_future_question (timedelta_days 1) 0 0"
proof -
  have h: "(0::int) < pub_date \<lparr>pk = None, question_text = [], pub_date = 0 + timedelta_days 30\<rparr>"
    by (simp add: timedelta_days_def)
  from future_question_not_recent [OF h, of "timedelta_days 1"] h show ?thesis
    by (simp add: test_was_published_recently_with_future_question_def)
qed

lemma set_visibility_filter:
  "set (visibility_filter now objects) = {q \<in> set objects. pub_date q \<le> now}"
  by (simp add: visibility_filter_def)

lemma mset_visibility_filter:
  "mset (visibility_filter now objects) = mset (published now objects)"
  by (simp add: visibility_filter_def published_def)

lemma sorted_visibility_filter:
  "sorted (map (\<lambda>q. - pub_date q) (visibility_filter now objects))"
  by (simp add: visibility_filter_def)

lemma descending_iff:
  "sorted_wrt (\<lambda>a b. pub_date b \<le> pub_date a) qs \<longleftrightarrow> sorted (map (\<lambda>q. - pub_date q) qs)"
  by (simp add: sorted_wrt_map)

lemma descending_visibility_filter:
  "sorted_wrt (\<lambda>a b. pub_date b \<le> pub_date a) (visibility_filter now objects)"
  by (simp only: descending_iff sorted_visibility_filter)

lemma descending_take:
  "sorted_wrt (\<lambda>a b. pub_date b \<le> pub_date a) qs \<Longrightarrow>
   sorted_wrt (\<lambda>a b. pub_date b \<le> pub_date a) (take N qs)"
  by (rule sorted_wrt_take)

lemma descending_split:
  assumes "sorted_wrt (\<lambda>a b. pub_date b \<le> pub_date a) qs"
    and "a \<in> set (take N qs)" and "b \<in> set (drop N qs)"
  shows "pub_date b \<le> pub_date a"
proof -
  from assms(1) have "sorted_wrt (\<lambda>a b. pub_date b \<le> pub_date a) (take N qs @ drop N qs)"
    by simp
  with assms(2,3) show ?thesis
    unfolding sorted_wrt_append by blast
qed

lemma omitted_in_drop:
  assumes "q \<in> set qs" and "q \<notin> set (take N qs)"
  shows "q \<in> set (drop N qs)"
proof -
  have "set qs = set (take N qs) \<union> set (drop N qs)"
    by (metis append_take_drop_id set_append)
  with assms show ?thesis by blast
qed

lemma mset_take_drop: "mset (take N qs) + mset (drop N qs) = mset qs"
  by (metis append_take_drop_id mset_append)

lemma left_out_in_drop:
  assumes "mset vs = mset ps"
  shows "mset ps - mset (take N vs) = mset (drop N vs)"
proof -
  have "mset ps = mset (take N vs) + mset (drop N vs)"
    using assms mset_take_drop [of N vs] by simp
  then show ?thesis by simp
qed

text \<open>
  Claim C4, as amended. For every table of Questions and every limit \<open>N\<close> of the index
  view, the index view's question list holds only Questions whose \<^verbatim>\<open>pub_date\<close> is at
  most the current time, each no more often than the table holds it, in descending
  order of \<^verbatim>\<open>pub_date\<close>; it has \<open>N\<close> entries or all the published Questions,
  whichever is fewer; every published Question it leaves out is no more recent than
  every Question it lists; and when at most \<open>N\<close> Questions are published it holds
  exactly those Questions. So it is the \<open>N\<close> most recent of the published Questions.
\<close>

theorem index_lists_latest_published:
  "set (latest_question_list N now objects) \<subseteq> {q \<in> set objects. pub_date q \<le> now} \<and>
   mset (latest_question_list N now objects) \<subseteq># mset (published now objects) \<and>
   sorted_wrt (\<lambda>a b. pub_date b \<le> pub_date a) (latest_question_list N now objects) \<and>
   length (latest_question_list N now objects) = min N (length (published now objects)) \<and>
   (\<forall>q \<in> set (published now objects) - set (latest_question_list N now objects).
      \<forall>q' \<in> set (latest_question_list N now objects). pub_date q \<le> pub_date q') \<and>
   (\<forall>q \<in># mset (published now objects) - mset (latest_question_list N now objects).
      \<forall>q' \<in> set (latest_question_list N now objects). pub_date q \<le> pub_date q') \<and>
   (length (published now objects) \<le> N \<longrightarrow>
      mset (latest_question_list N now objects) = mset (published now objects))"
proof -
  let ?vs = "visibility_filter now objects"
  have ms: "mset ?vs = mset (published now objects)"
    by (rule mset_visibility_filter)
  have len: "length ?vs = length (published now objects)"
    using ms by (metis size_mset)
  have "set (take N ?vs) \<subseteq> {q \<in> set objects. pub_date q \<le> now}"
    using set_take_subset [of N ?vs] by (simp only: set_visibility_filter)
  moreover have "mset (take N ?vs) \<subseteq># mset (published now objects)"
    using mset_take_drop [of N ?vs] ms by (metis mset_subset_eq_add_left)
  moreover have "sorted_wrt (\<lambda>a b. pub_date b \<le> pub_date a) (take N ?vs)"
    by (intro descending_take descending_visibility_filter)
  moreover have "length (take N ?vs) = min N (length (published now objects))"
    using len by simp
  moreover have "\<forall>q \<in> set (published now objects) - set (take N ?vs).
      \<forall>q' \<in> set (take N ?vs). pub_date q \<le> pub_date q'"
  proof (intro ballI)
    fix q q'
    assume q: "q \<in> set (published now objects) - set (take N ?vs)"
      and q': "q' \<in> set (take N ?vs)"
    from q have "q \<in> set ?vs" "q \<notin> set (take N ?vs)"
      by (simp_all add: set_visibility_filter published_def)
    then have "q \<in> set (drop N ?vs)"
      by (rule omitted_in_drop)
    with descending_visibility_filter q' show "pub_date q \<le> pub_date q'"
      by (rule descending_split)
  qed
  moreover have "\<forall>q \<in># mset (published now objects) - mset (take N ?vs).
      \<forall>q' \<in> set (take N ?vs). pub_date q \<le> pub_date q'"
  proof (intro ballI)
    fix q q'
    assume q: "q \<in># mset (published now objects) - mset (take N ?vs)"
      and q': "q' \<in> set (take N ?vs)"
    from q have "q \<in> set (drop N ?vs)"
      by (simp add: left_out_in_drop [OF ms])
    with descending_visibility_filter q' show "pub_date q \<le> pub_date q'"
      by (rule descending_split)
  qed
  moreover have "length (published now objects) \<le> N \<longrightarrow>
      mset (take N ?vs) = mset (published now objects)"
    using len by (simp add: mset_visibility_filter)
  ultimately show ?thesis
    unfolding latest_question_list_def by blast
qed

text \<open>
  The theorem at a table of four Questions, thirty days ahead and thirty, nine and one
  day back, with the limit 2: three are published, the list is the two most recent, and
  the one left out is no more recent than either. The two index tests pass at the
  same limit.
\<close>

theorem index_lists_latest_published_witness:
  "length (published 0
      [\<lparr>pk = Some 1, question_text = ''Future question.'', pub_date = timedelta_days 30\<rparr>,
       \<lparr>pk = Some 2, question_text = ''Past question.'', pub_date = timedelta_days (- 30)\<rparr>,
       \<lparr>pk = Some 3, question_text = ''Latest question.'', pub_date = timedelta_days (- 9)\<rparr>,
       \<lparr>pk = Some 4, question_text = ''Newest question.'', pub_date = timedelta_days (- 1)\<rparr>]) = 3 \<and>
   latest_question_list 2 0
      [\<lparr>pk = Some 1, question_text = ''Future question.'', pub_date = timedelta_days 30\<rparr>,
       \<lparr>pk = Some 2, question_text = ''Past question.'', pub_date = timedelta_days (- 30)\<rparr>,
       \<lparr>pk = Some 3, question_text = ''Latest question.'', pub_date = timedelta_days (- 9)\<rparr>,
       \<lparr>pk = Some 4, question_text = ''Newest question.'', pub_date = timedelta_days (- 1)\<rparr>] =
      [\<lparr>pk = Some 4, question_text = ''Newest question.'', pub_date = timedelta_days (- 1)\<rparr>,
       \<lparr>pk = Some 3, question_text = ''Latest question.'', pub_date = timedelta_days (- 9)\<rparr>] \<and>
   mset [\<lparr>pk = Some 4, question_text = ''Newest question.'', pub_date = timedelta_days (- 1)\<rparr>,
         \<lparr>pk = Some 3, question_text = ''Latest question.'', pub_date = timedelta_days (- 9)\<rparr>]
     \<subseteq># mset (published 0
      [\<lparr>pk = Some 1, question_text = ''Future question.'', pub_date = timedelta_days 30\<rparr>,
       \<lparr>pk = Some 2, question_text = ''Past question.'', pub_date = timedelta_days (- 30)\<rparr>,
       \<lparr>pk = Some 3, question_text = ''Latest question.'', pub_date = timedelta_days (- 9)\<rparr>,
       \<lparr>pk = Some 4, question_text = ''Newest question.'', pub_date = timedelta_days (- 1)\<rparr>]) \<and>
   pub_date \<lparr>pk = Some 2, question_text = ''Past question.'', pub_date = timedelta_days (- 30)\<rparr>
     \<le> pub_date \<lparr>pk = Some 3, question_text = ''Latest question.'', pub_date = timedelta_days (- 9)\<rparr> \<and>
   test_index_view_with_two_past_questions 2 0 \<and>
   test_index_view_with_future_question_and_past_question 2 0"
proof -
  let ?future = "\<lparr>pk = Some 1, question_text = ''Future question.'', pub_date = timedelta_days 30\<rparr>"
  let ?past = "\<lparr>pk = Some 2, question_text = ''Past question.'', pub_date = timedelta_days (- 30)\<rparr>"
  let ?latest = "\<lparr>pk = Some 3, question_text = ''Latest question.'', pub_date = timedelta_days (- 9)\<rparr>"
  let ?newest = "\<lparr>pk = Some 4, question_text = ''Newest question.'', pub_date = timedelta_days (- 1)\<rparr>"
  let ?objects = "[?future, ?past, ?latest, ?newest]"
  have p: "published 0 ?objects = [?past, ?latest, ?newest]"
    by (simp add: published_def timedelta_days_def)
  have l: "latest_question_list 2 0 ?objects = [?newest, ?latest]"
    by (simp add: latest_question_list_def visibility_filter_def timedelta_days_def)
  have out: "?past \<in># mset (published 0 ?objects) - mset (latest_question_list 2 0 ?objects)"
    unfolding p l by (simp add: timedelta_days_def)
  have listed: "?latest \<in> set (latest_question_list 2 0 ?objects)"
    unfolding l by simp
  have t: "test_index_view_with_two_past_questions 2 0"
    "test_index_view_with_future_question_and_past_question 2 0"
    by (simp_all add: test_index_view_with_two_past_questions_def
        test_index_view_with_future_question_and_past_question_def test_defs)
  from index_lists_latest_published [of 2 0 ?objects]
  have sub: "mset (latest_question_list 2 0 ?objects) \<subseteq># mset (published 0 ?objects)"
    and rest: "\<forall>q \<in># mset (published 0 ?objects) - mset (latest_question_list 2 0 ?objects).
      \<forall>q' \<in> set (latest_question_list 2 0 ?objects). pub_date q \<le> pub_date q'"
    by blast+
  from rest out listed have "pub_date ?past \<le> pub_date ?latest"
    by blast
  moreover from sub have "mset [?newest, ?latest] \<subseteq># mset (published 0 ?objects)"
    by (simp only: l)
  moreover from p have "length (published 0 ?objects) = 3"
    by simp
  ultimately show ?thesis
    using l t by blast
qed

text \<open>
  Claim C4, as stated, fails: whatever the limit \<open>N\<close> of the index view is, some table
  holds more than \<open>N\<close> published Questions, and the index view does not list them all.
\<close>

theorem index_shows_all_published_counterexample:
  "\<not> (\<exists>N. \<forall>now objects.
        set (latest_question_list N now objects) = {q \<in> set objects. pub_date q \<le> now})"
proof
  assume "\<exists>N. \<forall>now objects.
        set (latest_question_list N now objects) = {q \<in> set objects. pub_date q \<le> now}"
  then obtain N where all: "\<And>now objects.
        set (latest_question_list N now objects) = {q \<in> set objects. pub_date q \<le> now}"
    by blast
  define objects where
    "objects = map (\<lambda>k. \<lparr>pk = Some k, question_text = [], pub_date = 0\<rparr>) [0..<Suc N]"
  have d: "distinct objects"
    unfolding objects_def distinct_map by (simp add: inj_on_def del: upt_Suc)
  have "{q \<in> set objects. pub_date q \<le> 0} = set objects"
    by (auto simp add: objects_def)
  with all [of 0 objects] have "set (latest_question_list N 0 objects) = set objects"
    by simp
  then have "card (set objects) = card (set (latest_question_list N 0 objects))"
    by simp
  also have "\<dots> \<le> length (latest_question_list N 0 objects)"
    by (rule card_length)
  also have "\<dots> \<le> N"
    by (simp add: latest_question_list_def)
  finally have "card (set objects) \<le> N" .
  moreover have "length objects = Suc N"
    by (simp add: objects_def del: upt_Suc)
  with d have "card (set objects) = Suc N"
    by (simp only: distinct_card)
  ultimately show False by simp
qed

end
